theory Spec2Isabelle
  imports Main "HOL-Library.Multiset"
begin

section \<open>Data model of the CUDA ForICount statement executors\<close>

text \<open>
  The executors of the ForICount header take a kernel closure \<open>Data\<close> by reference and
  a flag \<open>thread_active\<close>. The closure holds, for the loop's \<open>ArgumentId\<close>, the current
  offset and the segment length, for its \<open>ParamId\<close> the current loop count, and the
  state captured by the lambda bodies. C++ \<open>int\<close> values are modelled by \<open>int\<close>; signed
  overflow is undefined behaviour in the source, so the model describes the runs
  without overflow.
\<close>

record 's Data =
  offset :: int
  param :: int
  seg_len :: int
  user :: 's

definition segment_length :: "'s Data \<Rightarrow> int" where
  "segment_length data = seg_len data"

definition assign_offset :: "int \<Rightarrow> 's Data \<Rightarrow> 's Data" where
  "assign_offset i data = data\<lparr>offset := i\<rparr>"

definition assign_param :: "int \<Rightarrow> 's Data \<Rightarrow> 's Data" where
  "assign_param i data = data\<lparr>param := i\<rparr>"

text \<open>The built-in index vectors of one hardware thread.\<close>

record dim3 =
  dim_x :: int
  dim_y :: int
  dim_z :: int

record hw =
  threadIdx :: dim3
  blockDim :: dim3
  blockIdx :: dim3
  gridDim :: dim3

text \<open>
  Modelled from the spec: \<open>get_cuda_dim<dim>\<close> (declared in the kernel's internal header,
  which is not among the sources) is the spec's \<open>hardware_index(dim)\<close>: component 0, 1
  or 2 of an index vector.
\<close>

fun get_cuda_dim :: "nat \<Rightarrow> dim3 \<Rightarrow> int" where
  "get_cuda_dim 0 v = dim_x v"
| "get_cuda_dim (Suc 0) v = dim_y v"
| "get_cuda_dim (Suc (Suc n)) v = dim_z v"

text \<open>
  The \<open>Mask\<close> template argument of the masked policies is used through
  \<open>mask_t::maskValue\<close> and \<open>mask_t::max_masked_size\<close> only; both are parameters here.
\<close>

record mask_t =
  maskValue :: "int \<Rightarrow> int"
  max_masked_size :: int

text \<open>The enclosed statement list: it receives the closure and the activity flag.\<close>

type_synonym 's stmts = "'s Data \<Rightarrow> bool \<Rightarrow> 's Data"



section \<open>Direct executors\<close>

definition exec_thread_xyz_direct ::
    "nat \<Rightarrow> hw \<Rightarrow> 's stmts \<Rightarrow> 's Data \<Rightarrow> bool \<Rightarrow> 's Data" where
  "exec_thread_xyz_direct ThreadDim h enclosed_stmts data thread_active =
     (let len = segment_length data;
          i = get_cuda_dim ThreadDim (threadIdx h);
          data1 = assign_offset i data;
          data2 = assign_param i data1
      in enclosed_stmts data2 (thread_active \<and> i < len))"

definition exec_warp_direct ::
    "hw \<Rightarrow> 's stmts \<Rightarrow> 's Data \<Rightarrow> bool \<Rightarrow> 's Data" where
  "exec_warp_direct h enclosed_stmts data thread_active =
     (let len = segment_length data;
          i = get_cuda_dim 0 (threadIdx h);
          data1 = assign_offset i data;
          data2 = assign_param i data1
      in enclosed_stmts data2 (thread_active \<and> i < len))"

definition exec_warp_masked_direct ::
    "mask_t \<Rightarrow> hw \<Rightarrow> 's stmts \<Rightarrow> 's Data \<Rightarrow> bool \<Rightarrow> 's Data" where
  "exec_warp_masked_direct m h enclosed_stmts data thread_active =
     (let len = segment_length data;
          i = maskValue m (dim_x (threadIdx h));
          data1 = assign_offset i data;
          data2 = assign_param i data1
      in enclosed_stmts data2 (thread_active \<and> i < len))"

definition exec_thread_masked_direct ::
    "mask_t \<Rightarrow> hw \<Rightarrow> 's stmts \<Rightarrow> 's Data \<Rightarrow> bool \<Rightarrow> 's Data" where
  "exec_thread_masked_direct m h enclosed_stmts data thread_active =
     (let len = segment_length data;
          i = maskValue m (dim_x (threadIdx h));
          data1 = assign_offset i data;
          data2 = assign_param i data1
      in enclosed_stmts data2 (thread_active \<and> i < len))"

text \<open>The block-direct executor guards the assignments and the call by \<open>i < len\<close>.\<close>

definition exec_block_xyz_direct ::
    "nat \<Rightarrow> hw \<Rightarrow> 's stmts \<Rightarrow> 's Data \<Rightarrow> bool \<Rightarrow> 's Data" where
  "exec_block_xyz_direct BlockDim h enclosed_stmts data thread_active =
     (let len = segment_length data;
          i = get_cuda_dim BlockDim (blockIdx h)
      in if i < len
         then (let data1 = assign_offset i data;
                   data2 = assign_param i data1
               in enclosed_stmts data2 thread_active)
         else data)"

section \<open>Strided executors\<close>

text \<open>
  The four strided thread executors (warp-loop, warp-masked-loop, thread-masked-loop,
  thread-loop) run the same loop over chunk bases \<open>ii = 0, i_stride, 2 * i_stride, ...\<close>
  and differ in \<open>i0\<close> and \<open>i_stride\<close>. The loop does not end when \<open>i_stride \<le> 0\<close> and
  \<open>0 < len\<close>; not returning is the value \<open>None\<close>.
\<close>

partial_function (option) chunk_loop ::
    "'s stmts \<Rightarrow> int \<Rightarrow> int \<Rightarrow> int \<Rightarrow> bool \<Rightarrow> int \<Rightarrow> 's Data \<Rightarrow> 's Data option" where
  "chunk_loop enclosed_stmts len i0 i_stride thread_active ii data =
     (if ii < len
      then (let i = ii + i0;
                have_work = i < len;
                data1 = assign_offset i data;
                data2 = assign_param i data1;
                data3 = enclosed_stmts data2 (thread_active \<and> have_work)
            in chunk_loop enclosed_stmts len i0 i_stride thread_active (ii + i_stride) data3)
      else Some data)"

definition exec_warp_loop ::
    "int \<Rightarrow> hw \<Rightarrow> 's stmts \<Rightarrow> 's Data \<Rightarrow> bool \<Rightarrow> 's Data option" where
  "exec_warp_loop WARP_SIZE h enclosed_stmts data thread_active =
     (let len = segment_length data;
          i0 = dim_x (threadIdx h);
          i_stride = WARP_SIZE
      in chunk_loop enclosed_stmts len i0 i_stride thread_active 0 data)"

definition exec_warp_masked_loop ::
    "mask_t \<Rightarrow> hw \<Rightarrow> 's stmts \<Rightarrow> 's Data \<Rightarrow> bool \<Rightarrow> 's Data option" where
  "exec_warp_masked_loop m h enclosed_stmts data thread_active =
     (let len = segment_length data;
          i0 = maskValue m (dim_x (threadIdx h));
          i_stride = max_masked_size m
      in chunk_loop enclosed_stmts len i0 i_stride thread_active 0 data)"

definition exec_thread_masked_loop ::
    "mask_t \<Rightarrow> hw \<Rightarrow> 's stmts \<Rightarrow> 's Data \<Rightarrow> bool \<Rightarrow> 's Data option" where
  "exec_thread_masked_loop m h enclosed_stmts data thread_active =
     (let len = segment_length data;
          i0 = maskValue m (dim_x (threadIdx h));
          i_stride = max_masked_size m
      in chunk_loop enclosed_stmts len i0 i_stride thread_active 0 data)"

definition exec_thread_xyz_loop ::
    "nat \<Rightarrow> hw \<Rightarrow> 's stmts \<Rightarrow> 's Data \<Rightarrow> bool \<Rightarrow> 's Data option" where
  "exec_thread_xyz_loop ThreadDim h enclosed_stmts data thread_active =
     (let len = segment_length data;
          i0 = get_cuda_dim ThreadDim (threadIdx h);
          i_stride = get_cuda_dim ThreadDim (blockDim h)
      in chunk_loop enclosed_stmts len i0 i_stride thread_active 0 data)"

text \<open>The block-loop executor strides \<open>i\<close> itself and stops at the first \<open>i \<ge> len\<close>.\<close>

partial_function (option) grid_loop ::
    "'s stmts \<Rightarrow> int \<Rightarrow> int \<Rightarrow> bool \<Rightarrow> int \<Rightarrow> 's Data \<Rightarrow> 's Data option" where
  "grid_loop enclosed_stmts len i_stride thread_active i data =
     (if i < len
      then (let data1 = assign_offset i data;
                data2 = assign_param i data1;
                data3 = enclosed_stmts data2 thread_active
            in grid_loop enclosed_stmts len i_stride thread_active (i + i_stride) data3)
      else Some data)"

definition exec_block_xyz_loop ::
    "nat \<Rightarrow> hw \<Rightarrow> 's stmts \<Rightarrow> 's Data \<Rightarrow> bool \<Rightarrow> 's Data option" where
  "exec_block_xyz_loop BlockDim h enclosed_stmts data thread_active =
     (let len = segment_length data;
          i0 = get_cuda_dim BlockDim (blockIdx h);
          i_stride = get_cuda_dim BlockDim (gridDim h)
      in grid_loop enclosed_stmts len i_stride thread_active i0 data)"

text \<open>The sequential executor counts \<open>i\<close> from 0 to \<open>len - 1\<close>; it always returns.\<close>

function seq_loop ::
    "'s stmts \<Rightarrow> int \<Rightarrow> bool \<Rightarrow> int \<Rightarrow> 's Data \<Rightarrow> 's Data" where
  "seq_loop enclosed_stmts len thread_active i data =
     (if i < len
      then (let data1 = assign_offset i data;
                data2 = assign_param i data1;
                data3 = enclosed_stmts data2 thread_active
            in seq_loop enclosed_stmts len thread_active (i + 1) data3)
      else data)"
  by pat_completeness auto
termination
  by (relation "measure (\<lambda>(e, len, a, i, d). nat (len - i))") auto

declare seq_loop.simps [simp del]

definition exec_seq ::
    "'s stmts \<Rightarrow> 's Data \<Rightarrow> bool \<Rightarrow> 's Data" where
  "exec_seq enclosed_stmts data thread_active =
     (let len = segment_length data
      in seq_loop enclosed_stmts len thread_active 0 data)"

section \<open>Building an executor: the static assertions\<close>

text \<open>
  The execution policies that have a ForICount executor. \<open>cuda_thread_xyz_loop\<close> carries
  \<open>ThreadDim\<close> and \<open>MinThreads\<close>.
\<close>

datatype policy =
    cuda_thread_xyz_direct nat
  | cuda_warp_direct
  | cuda_warp_loop
  | cuda_warp_masked_direct mask_t
  | cuda_warp_masked_loop mask_t
  | cuda_thread_masked_direct mask_t
  | cuda_thread_masked_loop mask_t
  | cuda_thread_xyz_loop nat nat
  | cuda_block_xyz_direct nat
  | cuda_block_xyz_loop nat
  | seq_exec

datatype build_error = BitMask_too_large

text \<open>
  Instantiating the ForICount executor of a policy. The two warp-masked specialisations
  carry \<open>static_assert(mask_t::max_masked_size <= WARP_SIZE, "BitMask is too large for
  CUDA warp size")\<close>; the thread-masked ones and all others carry no assertion. The
  constant \<open>RAJA::policy::cuda::WARP_SIZE\<close> is a parameter. The For executors that
  the specialisations derive from are not among the sources; the model carries the
  assertions of the ForICount specialisations themselves.
\<close>

fun CudaStatementExecutor ::
    "int \<Rightarrow> policy \<Rightarrow> build_error + (hw \<Rightarrow> 's stmts \<Rightarrow> 's Data \<Rightarrow> bool \<Rightarrow> 's Data option)" where
  "CudaStatementExecutor WARP_SIZE (cuda_thread_xyz_direct ThreadDim) =
     Inr (\<lambda>h e d a. Some (exec_thread_xyz_direct ThreadDim h e d a))"
| "CudaStatementExecutor WARP_SIZE cuda_warp_direct =
     Inr (\<lambda>h e d a. Some (exec_warp_direct h e d a))"
| "CudaStatementExecutor WARP_SIZE cuda_warp_loop =
     Inr (exec_warp_loop WARP_SIZE)"
| "CudaStatementExecutor WARP_SIZE (cuda_warp_masked_direct m) =
     (if max_masked_size m \<le> WARP_SIZE
      then Inr (\<lambda>h e d a. Some (exec_warp_masked_direct m h e d a))
      else Inl BitMask_too_large)"
| "CudaStatementExecutor WARP_SIZE (cuda_warp_masked_loop m) =
     (if max_masked_size m \<le> WARP_SIZE
      then Inr (exec_warp_masked_loop m)
      else Inl BitMask_too_large)"
| "CudaStatementExecutor WARP_SIZE (cuda_thread_masked_direct m) =
     Inr (\<lambda>h e d a. Some (exec_thread_masked_direct m h e d a))"
| "CudaStatementExecutor WARP_SIZE (cuda_thread_masked_loop m) =
     Inr (exec_thread_masked_loop m)"
| "CudaStatementExecutor WARP_SIZE (cuda_thread_xyz_loop ThreadDim MinThreads) =
     Inr (exec_thread_xyz_loop ThreadDim)"
| "CudaStatementExecutor WARP_SIZE (cuda_block_xyz_direct BlockDim) =
     Inr (\<lambda>h e d a. Some (exec_block_xyz_direct BlockDim h e d a))"
| "CudaStatementExecutor WARP_SIZE (cuda_block_xyz_loop BlockDim) =
     Inr (exec_block_xyz_loop BlockDim)"
| "CudaStatementExecutor WARP_SIZE seq_exec =
     Inr (\<lambda>h e d a. Some (exec_seq e d a))"

section \<open>Observing an executor: a recording body and a launch\<close>

text \<open>
  The enclosed statement used to observe an executor appends one entry per invocation:
  the offset and the param bound in the closure, and the activity flag it was given.
\<close>

type_synonym call = "int \<times> int \<times> bool"












section \<open>The SYCL launch helpers\<close>

text \<open>
  The helpers talk to a SYCL queue. The queue is modelled by what the host can observe
  of it: the device allocations, the commands submitted and not yet waited for, the
  sequence of API calls, and whether a device allocation was ever freed while a pending
  kernel referenced it.
\<close>

datatype payload = ByValue | ByPointer nat

datatype command = Memcpy nat | Kernel payload

datatype api_call =
    MallocDevice nat
  | SubmitMemcpy nat nat
  | SubmitKernel nat payload
  | WaitEvent nat
  | WaitQueue
  | Free nat

record queue =
  next_ptr :: nat
  allocated :: "nat set"
  next_event :: nat
  pending :: "(nat \<times> command) list"
  freed_in_use :: bool
  trace :: "api_call list"

definition malloc_device :: "queue \<Rightarrow> nat \<times> queue" where
  "malloc_device q =
     (next_ptr q,
      q\<lparr>next_ptr := Suc (next_ptr q), allocated := insert (next_ptr q) (allocated q),
        trace := trace q @ [MallocDevice (next_ptr q)]\<rparr>)"

definition queue_memcpy :: "nat \<Rightarrow> queue \<Rightarrow> nat \<times> queue" where
  "queue_memcpy p q =
     (next_event q,
      q\<lparr>next_event := Suc (next_event q), pending := pending q @ [(next_event q, Memcpy p)],
        trace := trace q @ [SubmitMemcpy (next_event q) p]\<rparr>)"

definition queue_submit :: "payload \<Rightarrow> queue \<Rightarrow> nat \<times> queue" where
  "queue_submit pl q =
     (next_event q,
      q\<lparr>next_event := Suc (next_event q), pending := pending q @ [(next_event q, Kernel pl)],
        trace := trace q @ [SubmitKernel (next_event q) pl]\<rparr>)"

definition event_wait :: "nat \<Rightarrow> queue \<Rightarrow> queue" where
  "event_wait ev q =
     q\<lparr>pending := filter (\<lambda>(e, c). e \<noteq> ev) (pending q), trace := trace q @ [WaitEvent ev]\<rparr>"

definition queue_wait :: "queue \<Rightarrow> queue" where
  "queue_wait q = q\<lparr>pending := [], trace := trace q @ [WaitQueue]\<rparr>"

definition sycl_free :: "nat \<Rightarrow> queue \<Rightarrow> queue" where
  "sycl_free p q =
     q\<lparr>allocated := allocated q - {p},
       freed_in_use := (freed_in_use q \<or> (\<exists>(e, c) \<in> set (pending q). c = Kernel (ByPointer p))),
       trace := trace q @ [Free p]\<rparr>"

text \<open>
  \<open>SyclLaunchHelperNonTrivial::launch\<close>: the template flag \<open>async0\<close> is stored in
  \<open>async\<close> and not read by the body.
\<close>

definition SyclLaunchHelperNonTrivial_launch :: "bool \<Rightarrow> queue \<Rightarrow> queue" where
  "SyclLaunchHelperNonTrivial_launch async qu =
     (let (m_data, q1) = malloc_device qu;
          (ev1, q2) = queue_memcpy m_data q1;
          q3 = event_wait ev1 q2;
          (ev2, q4) = queue_submit (ByPointer m_data) q3;
          q5 = event_wait ev2 q4
      in sycl_free m_data q5)"

text \<open>\<open>SyclLaunchHelper::launch\<close>: the payload travels by value.\<close>

definition SyclLaunchHelper_launch :: "bool \<Rightarrow> queue \<Rightarrow> queue" where
  "SyclLaunchHelper_launch async qu =
     (let (ev, q1) = queue_submit ByValue qu
      in if \<not> async then queue_wait q1 else q1)"

text \<open>Event ids and pointers handed out later are not in use yet.\<close>

definition queue_ok :: "queue \<Rightarrow> bool" where
  "queue_ok q =
     ((\<forall>(e, c) \<in> set (pending q). e < next_event q) \<and>
      (\<forall>(e, c) \<in> set (pending q). \<forall>p. c = Kernel (ByPointer p) \<longrightarrow> p < next_ptr q))"

section \<open>The TBB reducer\<close>

record 'a Reducer =
  val :: 'a
  target :: 'a

text \<open>The operator type \<open>OP\<close>: its \<open>identity()\<close> and its call operator are parameters.\<close>

record 'a OP =
  identity :: 'a
  call :: "'a \<Rightarrow> 'a \<Rightarrow> 'a"

definition init :: "'a OP \<Rightarrow> 'a Reducer \<Rightarrow> 'a Reducer" where
  "init op red = red\<lparr>val := identity op\<rparr>"

definition combine :: "'a OP \<Rightarrow> 'a Reducer \<Rightarrow> 'a Reducer \<Rightarrow> 'a Reducer" where
  "combine op out inp = out\<lparr>val := call op (val out) (val inp)\<rparr>"

definition resolve :: "'a OP \<Rightarrow> 'a Reducer \<Rightarrow> 'a Reducer" where
  "resolve op red = red\<lparr>target := call op (val red) (target red)\<rparr>"

text \<open>
  Modelled from the spec: the loop body's reduction call and the driver that runs the
  three steps are not among the sources. A body call folds one element into the
  running value with the operator; the driver initialises the reducer, lets every task
  accumulate its chunk in an initialised private copy, combines the copies into the
  reducer, and resolves it.
\<close>

definition accumulate :: "'a OP \<Rightarrow> 'a \<Rightarrow> 'a Reducer \<Rightarrow> 'a Reducer" where
  "accumulate op v red = red\<lparr>val := call op (val red) v\<rparr>"

definition run_task :: "'a OP \<Rightarrow> 'a Reducer \<Rightarrow> 'a list \<Rightarrow> 'a Reducer" where
  "run_task op red chunk = fold (accumulate op) chunk (init op red)"

definition forall_reduce :: "'a OP \<Rightarrow> 'a list list \<Rightarrow> 'a Reducer \<Rightarrow> 'a Reducer" where
  "forall_reduce op chunks red =
     resolve op (fold (\<lambda>chunk out. combine op out (run_task op red chunk)) chunks (init op red))"

definition MAX_OP :: "int \<Rightarrow> int OP" where
  "MAX_OP lowest = \<lparr>identity = lowest, call = max\<rparr>"

section \<open>The graph executor\<close>

text \<open>
  Modelled from the spec: the DAG class and its \<open>exec\<close> are not among the sources (its
  unit test is). Nodes are the handles \<open>0 .. num_nodes - 1\<close> in insertion order; an edge
  \<open>(u, v)\<close> makes \<open>u\<close> a predecessor of \<open>v\<close>. A node is eligible once it has not run and
  every predecessor has completed. \<open>exec\<close> runs one eligible node after the other; which
  of the eligible nodes runs next is left open by the spec, so it is the parameter
  \<open>pick\<close>. When nodes remain and none is eligible, the edges hold a cycle and \<open>exec\<close>
  fails.
\<close>

record DAG =
  num_nodes :: nat
  edges :: "(nat \<times> nat) list"

datatype graph_error = CycleDetected

definition ready :: "DAG \<Rightarrow> nat list \<Rightarrow> nat \<Rightarrow> bool" where
  "ready g completed v =
     (v \<notin> set completed \<and> list_all (\<lambda>(u, w). w = v \<longrightarrow> u \<in> set completed) (edges g))"

definition choose_ready :: "(nat list \<Rightarrow> nat) \<Rightarrow> nat list \<Rightarrow> nat" where
  "choose_ready pick rs = (if pick rs \<in> set rs then pick rs else hd rs)"

fun exec_steps :: "(nat list \<Rightarrow> nat) \<Rightarrow> DAG \<Rightarrow> nat \<Rightarrow> nat list \<Rightarrow> graph_error + nat list" where
  "exec_steps pick g 0 completed = Inr completed"
| "exec_steps pick g (Suc k) completed =
     (case filter (ready g completed) [0..<num_nodes g] of
        [] \<Rightarrow> Inl CycleDetected
      | r # rs \<Rightarrow> exec_steps pick g k (completed @ [choose_ready pick (r # rs)]))"

definition exec :: "(nat list \<Rightarrow> nat) \<Rightarrow> DAG \<Rightarrow> graph_error + nat list" where
  "exec pick g = exec_steps pick g (num_nodes g) []"

text \<open>
  The callables of the unit test: node \<open>v\<close> runs \<open>order[v] = count++\<close>, with \<open>count\<close>
  starting at 0 and every entry of \<open>order\<close> at -1.
\<close>

definition node_callable :: "nat \<Rightarrow> int \<times> (nat \<Rightarrow> int) \<Rightarrow> int \<times> (nat \<Rightarrow> int)" where
  "node_callable v s = (fst s + 1, (snd s)(v := fst s))"

definition run_callables :: "nat list \<Rightarrow> int \<times> (nat \<Rightarrow> int)" where
  "run_callables completed = fold node_callable completed (0, \<lambda>v. - 1)"

definition edges_in_range :: "DAG \<Rightarrow> bool" where
  "edges_in_range g = list_all (\<lambda>(u, v). u < num_nodes g \<and> v < num_nodes g) (edges g)"

text \<open>The graphs the tests build: every edge goes from a lower to a higher handle.\<close>

definition forward_edges :: "DAG \<Rightarrow> bool" where
  "forward_edges g = list_all (\<lambda>(u, v). u < v \<and> v < num_nodes g) (edges g)"

text \<open>
  The invariant of a run: no node completes twice, every completed node is a node of
  the graph, and all predecessors of a completed node completed before it.
\<close>

definition preds_first :: "DAG \<Rightarrow> nat list \<Rightarrow> bool" where
  "preds_first g completed =
     (\<forall>xs v ys. completed = xs @ v # ys \<longrightarrow>
        (\<forall>(u, w) \<in> set (edges g). w = v \<longrightarrow> u \<in> set xs))"

section \<open>The work-group pipeline\<close>

text \<open>
  Modelled from the spec: the WorkPool, WorkGroup and WorkSite classes and
  \<open>RAJA::forall\<close> are not among the sources (the halo-exchange example that uses them
  is). A loop body is its effect on the memory, for one index. A pool stores the
  enqueued (segment, body) pairs in enqueue order; \<open>instantiate\<close> moves them into a
  group and leaves the pool empty; \<open>run\<close>, followed by the site's synchronisation,
  yields the memory after all bodies ran. One sequential launch of a body visits the
  segment's indices in increasing order. The ordered policy makes one such launch per
  entry, in enqueue order. The unordered policy makes one fused launch over all
  (entry-index, iteration) pairs; the spec leaves the order inside one launch open, so
  the order of the pairs is the parameter \<open>sched\<close>.
\<close>

type_synonym 'm loop_body = "int \<Rightarrow> 'm \<Rightarrow> 'm"

type_synonym segment = "int \<times> int"

definition segment_indices :: "segment \<Rightarrow> int list" where
  "segment_indices seg = [fst seg..snd seg - 1]"

definition forall_loop :: "segment \<Rightarrow> 'm loop_body \<Rightarrow> 'm \<Rightarrow> 'm" where
  "forall_loop seg body m = fold body (segment_indices seg) m"


record 'm WorkGroup =
  dispatch_table :: "(segment \<times> 'm loop_body) list"

datatype order_policy = ordered | unordered





definition dispatch :: "'m WorkGroup \<Rightarrow> nat \<times> int \<Rightarrow> 'm \<Rightarrow> 'm" where
  "dispatch wg p m = snd (dispatch_table wg ! fst p) (snd p) m"

definition run :: "order_policy \<Rightarrow> (nat \<times> int) list \<Rightarrow> 'm WorkGroup \<Rightarrow> 'm \<Rightarrow> 'm" where
  "run pol sched wg m =
     (case pol of
        ordered \<Rightarrow> fold (\<lambda>(seg, body). forall_loop seg body) (dispatch_table wg) m
      | unordered \<Rightarrow> fold (dispatch wg) sched m)"








section \<open>Helper lemmas on the loops\<close>





text \<open>With a stride that is not positive, a strided loop that is entered never returns.\<close>

lemma chunk_loop_returns_only:
  assumes "chunk_loop e len i0 S a ii d = Some y"
  shows "S \<le> 0 \<longrightarrow> len \<le> ii"
proof (rule chunk_loop.raw_induct
         [where P = "\<lambda>e len i0 S a ii d y. S \<le> 0 \<longrightarrow> len \<le> ii", OF _ assms], goal_cases)
  case (1 f e len i0 S a ii d y)
  show ?case
  proof (intro impI, rule ccontr)
    assume s: "S \<le> 0" and "\<not> len \<le> ii"
    then have lt: "ii < len" by simp
    with 1(2) obtain d' where "f e len i0 S a (ii + S) d' = Some y"
      by (auto simp: Let_def)
    from 1(1)[OF this] s have "len \<le> ii + S" by simp
    with lt s show False by simp
  qed
qed

lemma chunk_loop_diverges:
  "S \<le> 0 \<Longrightarrow> ii < len \<Longrightarrow> chunk_loop e len i0 S a ii d = None"
  using chunk_loop_returns_only[of e len i0 S a ii d]
  by (cases "chunk_loop e len i0 S a ii d") auto

lemma grid_loop_returns_only:
  assumes "grid_loop e len S a i d = Some y"
  shows "S \<le> 0 \<longrightarrow> len \<le> i"
proof (rule grid_loop.raw_induct
         [where P = "\<lambda>e len S a i d y. S \<le> 0 \<longrightarrow> len \<le> i", OF _ assms], goal_cases)
  case (1 f e len S a i d y)
  show ?case
  proof (intro impI, rule ccontr)
    assume s: "S \<le> 0" and "\<not> len \<le> i"
    then have lt: "i < len" by simp
    with 1(2) obtain d' where "f e len S a (i + S) d' = Some y"
      by (auto simp: Let_def)
    from 1(1)[OF this] s have "len \<le> i + S" by simp
    with lt s show False by simp
  qed
qed

lemma grid_loop_diverges:
  "S \<le> 0 \<Longrightarrow> i < len \<Longrightarrow> grid_loop e len S a i d = None"
  using grid_loop_returns_only[of e len S a i d]
  by (cases "grid_loop e len S a i d") auto








section \<open>The direct executors\<close>







section \<open>The strided executors\<close>




section \<open>The SYCL launch helpers\<close>

lemma pending_filter_fresh:
  "\<forall>(e, c) \<in> set ps. e < (n::nat) \<Longrightarrow> filter (\<lambda>(e, c). e \<noteq> n) ps = ps"
proof (induction ps)
  case Nil
  then show ?case by simp
next
  case (Cons x ps)
  then show ?case by (cases x) auto
qed

text \<open>
  Claim C4. On a queue whose pending commands carry ids and pointers handed out before,
  the non-trivial launch helper makes, for either value of the async flag, the calls
  malloc, memcpy, wait for the memcpy, submit the kernel that references the device
  copy, wait for that kernel's event, free: the wait for the kernel stands between the
  submission and the free. When it returns the kernel is no longer pending (the pending
  commands are those from before), and the free has not released an allocation that a
  pending kernel references.
\<close>

theorem nontrivial_launch_waits_before_free:
  assumes "queue_ok qu"
  shows "trace (SyclLaunchHelperNonTrivial_launch async qu) =
           trace qu @ [MallocDevice (next_ptr qu),
                       SubmitMemcpy (next_event qu) (next_ptr qu),
                       WaitEvent (next_event qu),
                       SubmitKernel (Suc (next_event qu)) (ByPointer (next_ptr qu)),
                       WaitEvent (Suc (next_event qu)),
                       Free (next_ptr qu)] \<and>
         pending (SyclLaunchHelperNonTrivial_launch async qu) = pending qu \<and>
         freed_in_use (SyclLaunchHelperNonTrivial_launch async qu) = freed_in_use qu"
proof -
  have fresh: "\<forall>(e, c) \<in> set (pending qu). e < next_event qu"
    using assms by (simp add: queue_ok_def)
  then have fresh': "\<forall>(e, c) \<in> set (pending qu). e < Suc (next_event qu)"
    by auto
  have ptr: "\<not> (\<exists>(e, c) \<in> set (pending qu). c = Kernel (ByPointer (next_ptr qu)))"
    using assms by (fastforce simp: queue_ok_def)
  have q3: "pending (event_wait (next_event qu)
                (snd (queue_memcpy (next_ptr qu) (snd (malloc_device qu))))) = pending qu"
    using pending_filter_fresh[OF fresh]
    by (simp add: malloc_device_def queue_memcpy_def event_wait_def)
  have q5: "pending (event_wait (Suc (next_event qu))
                (snd (queue_submit (ByPointer (next_ptr qu))
                  (event_wait (next_event qu)
                    (snd (queue_memcpy (next_ptr qu) (snd (malloc_device qu)))))))) = pending qu"
    using pending_filter_fresh[OF fresh'] pending_filter_fresh[OF fresh]
    by (simp add: malloc_device_def queue_memcpy_def queue_submit_def event_wait_def)
  have unf: "SyclLaunchHelperNonTrivial_launch async qu =
      sycl_free (next_ptr qu) (event_wait (Suc (next_event qu))
                (snd (queue_submit (ByPointer (next_ptr qu))
                  (event_wait (next_event qu)
                    (snd (queue_memcpy (next_ptr qu) (snd (malloc_device qu))))))))"
    by (simp add: SyclLaunchHelperNonTrivial_launch_def malloc_device_def queue_memcpy_def
        event_wait_def queue_submit_def Let_def)
  have p: "pending (SyclLaunchHelperNonTrivial_launch async qu) = pending qu"
    unfolding unf using q5 by (simp add: sycl_free_def)
  have f: "freed_in_use (SyclLaunchHelperNonTrivial_launch async qu) = freed_in_use qu"
    unfolding unf using q5 ptr by (simp add: sycl_free_def malloc_device_def queue_memcpy_def
        event_wait_def queue_submit_def)
  have t: "trace (SyclLaunchHelperNonTrivial_launch async qu) =
           trace qu @ [MallocDevice (next_ptr qu),
                       SubmitMemcpy (next_event qu) (next_ptr qu),
                       WaitEvent (next_event qu),
                       SubmitKernel (Suc (next_event qu)) (ByPointer (next_ptr qu)),
                       WaitEvent (Suc (next_event qu)),
                       Free (next_ptr qu)]"
    by (simp add: SyclLaunchHelperNonTrivial_launch_def malloc_device_def queue_memcpy_def
        event_wait_def queue_submit_def sycl_free_def Let_def)
  from t p f show ?thesis by simp
qed

text \<open>
  The theorem on a queue with one earlier asynchronous kernel still pending, which
  references allocation 0, for the flag true and the flag false.
\<close>

theorem nontrivial_launch_waits_before_free_witness:
  "queue_ok \<lparr>next_ptr = 1, allocated = {0}, next_event = 1,
            pending = [(0, Kernel (ByPointer 0))], freed_in_use = False, trace = []\<rparr> \<and>
   trace (SyclLaunchHelperNonTrivial_launch True
            \<lparr>next_ptr = 1, allocated = {0}, next_event = 1,
             pending = [(0, Kernel (ByPointer 0))], freed_in_use = False, trace = []\<rparr>) =
     [MallocDevice 1, SubmitMemcpy 1 1, WaitEvent 1, SubmitKernel 2 (ByPointer 1),
      WaitEvent 2, Free 1] \<and>
   pending (SyclLaunchHelperNonTrivial_launch True
            \<lparr>next_ptr = 1, allocated = {0}, next_event = 1,
             pending = [(0, Kernel (ByPointer 0))], freed_in_use = False, trace = []\<rparr>) =
     [(0, Kernel (ByPointer 0))] \<and>
   freed_in_use (SyclLaunchHelperNonTrivial_launch True
            \<lparr>next_ptr = 1, allocated = {0}, next_event = 1,
             pending = [(0, Kernel (ByPointer 0))], freed_in_use = False, trace = []\<rparr>) = False \<and>
   freed_in_use (SyclLaunchHelperNonTrivial_launch False
            \<lparr>next_ptr = 1, allocated = {0}, next_event = 1,
             pending = [(0, Kernel (ByPointer 0))], freed_in_use = False, trace = []\<rparr>) = False"
proof -
  let ?q = "\<lparr>next_ptr = 1, allocated = {0}, next_event = 1,
             pending = [(0, Kernel (ByPointer 0))], freed_in_use = False, trace = []\<rparr>"
  have ok: "queue_ok ?q" by (simp add: queue_ok_def)
  show ?thesis
    using ok nontrivial_launch_waits_before_free [OF ok, of True]
          nontrivial_launch_waits_before_free [OF ok, of False]
    by simp
qed

text \<open>
  Claim C8. The trivially-copyable launch helper submits the kernel with the payload by
  value. With the async flag false it then waits on the queue: when it returns nothing
  is pending, the submitted kernel included. With the flag true it returns right after
  the submission: it makes no wait call, and the submitted kernel is still pending.
\<close>

theorem trivial_launch_sync_or_async:
  "trace (SyclLaunchHelper_launch False qu) =
     trace qu @ [SubmitKernel (next_event qu) ByValue, WaitQueue] \<and>
   pending (SyclLaunchHelper_launch False qu) = [] \<and>
   trace (SyclLaunchHelper_launch True qu) =
     trace qu @ [SubmitKernel (next_event qu) ByValue] \<and>
   pending (SyclLaunchHelper_launch True qu) = pending qu @ [(next_event qu, Kernel ByValue)]"
  by (simp add: SyclLaunchHelper_launch_def queue_submit_def queue_wait_def)

section \<open>The static assertion of the masked policies\<close>

text \<open>
  Claim C7, as amended. Building the executor of a warp-masked policy (direct or loop)
  whose mask has \<open>max_masked_size\<close> above the warp size fails with the static
  assertion's error, and succeeds otherwise. Building the executor of a thread-masked
  policy (direct or loop) succeeds for every mask, whatever its width.
\<close>

theorem masked_static_assert:
  "(WARP_SIZE < max_masked_size m \<longrightarrow>
      CudaStatementExecutor WARP_SIZE (cuda_warp_masked_direct m) = Inl BitMask_too_large \<and>
      CudaStatementExecutor WARP_SIZE (cuda_warp_masked_loop m) = Inl BitMask_too_large) \<and>
   (max_masked_size m \<le> WARP_SIZE \<longrightarrow>
      CudaStatementExecutor WARP_SIZE (cuda_warp_masked_direct m) =
        Inr (\<lambda>h e d a. Some (exec_warp_masked_direct m h e d a)) \<and>
      CudaStatementExecutor WARP_SIZE (cuda_warp_masked_loop m) = Inr (exec_warp_masked_loop m)) \<and>
   CudaStatementExecutor WARP_SIZE (cuda_thread_masked_direct m) =
     Inr (\<lambda>h e d a. Some (exec_thread_masked_direct m h e d a)) \<and>
   CudaStatementExecutor WARP_SIZE (cuda_thread_masked_loop m) = Inr (exec_thread_masked_loop m)"
  by simp

text \<open>The theorem for warp size 32, at a mask of width 64 and at a mask of width 4.\<close>

theorem masked_static_assert_witness:
  "(32::int) < max_masked_size \<lparr>maskValue = (\<lambda>t. t mod 64), max_masked_size = 64\<rparr> \<and>
   CudaStatementExecutor 32
       (cuda_warp_masked_direct \<lparr>maskValue = (\<lambda>t. t mod 64), max_masked_size = 64\<rparr>) =
     Inl BitMask_too_large \<and>
   CudaStatementExecutor 32
       (cuda_warp_masked_loop \<lparr>maskValue = (\<lambda>t. t mod 64), max_masked_size = 64\<rparr>) =
     Inl BitMask_too_large \<and>
   max_masked_size \<lparr>maskValue = (\<lambda>t. t mod 4), max_masked_size = 4\<rparr> \<le> (32::int) \<and>
   \<not> isl (CudaStatementExecutor 32
       (cuda_warp_masked_direct \<lparr>maskValue = (\<lambda>t. t mod 4), max_masked_size = 4\<rparr>)) \<and>
   \<not> isl (CudaStatementExecutor 32
       (cuda_warp_masked_loop \<lparr>maskValue = (\<lambda>t. t mod 4), max_masked_size = 4\<rparr>))"
  using masked_static_assert [of 32 "\<lparr>maskValue = (\<lambda>t. t mod 64), max_masked_size = 64\<rparr>"]
        masked_static_assert [of 32 "\<lparr>maskValue = (\<lambda>t. t mod 4), max_masked_size = 4\<rparr>"]
  by simp

text \<open>
  Warp size 32 and a mask of width 64: the thread-masked direct and loop executors
  are built, no assertion fails.
\<close>

theorem thread_masked_oversized_builds_counterexample:
  "(32::int) < max_masked_size \<lparr>maskValue = (\<lambda>t. t mod 64), max_masked_size = 64\<rparr> \<and>
   \<not> isl (CudaStatementExecutor 32
       (cuda_thread_masked_direct \<lparr>maskValue = (\<lambda>t. t mod 64), max_masked_size = 64\<rparr>)) \<and>
   \<not> isl (CudaStatementExecutor 32
       (cuda_thread_masked_loop \<lparr>maskValue = (\<lambda>t. t mod 64), max_masked_size = 64\<rparr>))"
  by simp

section \<open>The reducer\<close>

lemma MAX_OP_simps: "identity (MAX_OP l) = l" "call (MAX_OP l) = max"
  by (simp_all add: MAX_OP_def)

lemma Max_insert_absorb:
  fixes a :: int
  assumes "finite C" "l \<le> a"
  shows "Max (insert a (insert l C)) = Max (insert a C)"
proof -
  have "a \<le> Max (insert a C)" using assms(1) by simp
  then have "max l (Max (insert a C)) = Max (insert a C)" using assms(2) by simp
  moreover have "Max (insert l (insert a C)) = max l (Max (insert a C))"
    using assms(1) by simp
  ultimately show ?thesis by (simp add: insert_commute)
qed

lemma Max_insert_Un:
  fixes a :: int
  assumes "finite A" "finite B"
  shows "Max (insert a (A \<union> B)) = max (Max (insert a A)) (Max (insert a B))"
proof -
  have "insert a (A \<union> B) = insert a A \<union> insert a B" by auto
  moreover have "Max (insert a A \<union> insert a B) = max (Max (insert a A)) (Max (insert a B))"
    using assms by (intro Max_Un) simp_all
  ultimately show ?thesis by simp
qed

lemma val_fold_accumulate_max:
  "val (fold (accumulate (MAX_OP l)) xs r) = Max (insert (val r) (set xs))"
proof (induction xs arbitrary: r)
  case Nil
  then show ?case by simp
next
  case (Cons x xs)
  have "Max (insert (max (val r) x) (set xs)) = Max (insert (val r) (insert x (set xs)))"
    by (cases "set xs = {}") (simp_all add: max.assoc)
  then show ?case using Cons by (simp add: accumulate_def MAX_OP_simps)
qed

lemma val_run_task_max: "val (run_task (MAX_OP l) red chunk) = Max (insert l (set chunk))"
  by (simp add: run_task_def val_fold_accumulate_max init_def MAX_OP_simps)

lemma fold_combine_max:
  assumes "l \<le> val r"
  shows "val (fold (\<lambda>chunk out. combine (MAX_OP l) out (run_task (MAX_OP l) red chunk)) chunks r) =
     Max (insert (val r) (set (concat chunks)))"
  using assms
proof (induction chunks arbitrary: r)
  case Nil
  then show ?case by simp
next
  case (Cons c cs)
  let ?r = "combine (MAX_OP l) r (run_task (MAX_OP l) red c)"
  have "val ?r = max (val r) (Max (insert l (set c)))"
    by (simp add: combine_def val_run_task_max MAX_OP_simps)
  also have "\<dots> = Max (insert (val r) (insert l (set c)))" by simp
  also have "\<dots> = Max (insert (val r) (set c))"
    using Cons.prems by (intro Max_insert_absorb) simp_all
  finally have v: "val ?r = Max (insert (val r) (set c))" .
  have ge: "val r \<le> val ?r" unfolding v by simp
  then have l: "l \<le> val ?r" using Cons.prems by simp
  have "Max (insert (val ?r) (set (concat cs))) =
        max (val ?r) (Max (insert (val r) (set (concat cs))))"
  proof -
    have "Max (insert (val ?r) (insert (val r) (set (concat cs)))) =
          Max (insert (val ?r) (set (concat cs)))"
      using ge by (intro Max_insert_absorb) simp_all
    then show ?thesis by simp
  qed
  also have "\<dots> = Max (insert (val r) (set c \<union> set (concat cs)))"
    unfolding v by (simp add: Max_insert_Un)
  finally show ?case using Cons.IH[OF l] by simp
qed

lemma target_fold_combine:
  "target (fold (\<lambda>chunk out. combine op out (run_task op red chunk)) chunks r) = target r"
  by (induction chunks arbitrary: r) (simp_all add: combine_def)

lemma forall_reduce_max:
  "target (forall_reduce (MAX_OP l) chunks red) =
     max (Max (insert l (set (concat chunks)))) (target red)"
proof -
  let ?r = "fold (\<lambda>chunk out. combine (MAX_OP l) out (run_task (MAX_OP l) red chunk)) chunks
              (init (MAX_OP l) red)"
  have iv: "val (init (MAX_OP l) red) = l" by (simp add: init_def MAX_OP_simps)
  have v: "val ?r = Max (insert l (set (concat chunks)))"
    using fold_combine_max[of l "init (MAX_OP l) red" red chunks] by (simp add: iv)
  have t: "target ?r = target red" by (simp add: target_fold_combine init_def)
  show ?thesis
    unfolding forall_reduce_def by (simp add: resolve_def v t MAX_OP_simps)
qed

text \<open>
  Claim C10. Resolving a reducer stores the operator's combination of the accumulated
  value and the value already at the target. So for the max operator the result of a
  reduction is the maximum of the operator's identity, the elements and the target's
  previous value, and when no element and not the identity exceeds the previous value,
  the result is the previous value.
\<close>

theorem resolve_combines_into_target:
  "target (resolve op red) = call op (val red) (target red) \<and>
   target (forall_reduce (MAX_OP lowest) chunks red) =
     max (Max (insert lowest (set (concat chunks)))) (target red) \<and>
   ((\<forall>v \<in> set (concat chunks). v \<le> target red) \<and> lowest \<le> target red \<longrightarrow>
      target (forall_reduce (MAX_OP lowest) chunks red) = target red)"
proof -
  have "(\<forall>v \<in> set (concat chunks). v \<le> target red) \<and> lowest \<le> target red \<Longrightarrow>
        Max (insert lowest (set (concat chunks))) \<le> target red"
    by (subst Max_le_iff) auto
  then show ?thesis
    by (auto simp: resolve_def forall_reduce_max max_def)
qed

text \<open>
  The theorem for a max reducer whose target holds 500, on the elements -32767, 50 and
  3 split over two tasks.
\<close>

theorem resolve_combines_into_target_witness:
  "(-32767 \<le> target \<lparr>val = 0, target = (500::int)\<rparr> \<and> 50 \<le> target \<lparr>val = 0, target = (500::int)\<rparr> \<and>
    3 \<le> target \<lparr>val = 0, target = (500::int)\<rparr>) \<and>
   (-2147483648::int) \<le> target \<lparr>val = 0, target = (500::int)\<rparr> \<and>
   target (forall_reduce (MAX_OP (-2147483648)) [[-32767, 50], [3]] \<lparr>val = 0, target = 500\<rparr>) = 500"
  using resolve_combines_into_target
          [of "MAX_OP (-2147483648)" "\<lparr>val = 0, target = 500\<rparr>" "-2147483648" "[[-32767, 50], [3]]"]
  by simp

section \<open>The graph executor\<close>

lemma preds_first_Nil: "preds_first g []"
  by (simp add: preds_first_def)

lemma preds_first_snoc:
  assumes "preds_first g completed" "ready g completed c"
  shows "preds_first g (completed @ [c])"
  unfolding preds_first_def
proof (intro allI impI)
  fix xs v ys
  assume eq: "completed @ [c] = xs @ v # ys"
  show "\<forall>(u, w) \<in> set (edges g). w = v \<longrightarrow> u \<in> set xs"
  proof (cases ys rule: rev_cases)
    case Nil
    with eq have "xs = completed" "v = c" by simp_all
    then show ?thesis using assms(2) by (auto simp: ready_def list_all_iff)
  next
    case (snoc ys' y)
    with eq have "completed = xs @ v # ys'" by simp
    then show ?thesis using assms(1) unfolding preds_first_def by blast
  qed
qed

lemma choose_ready_in: "rs \<noteq> [] \<Longrightarrow> choose_ready pick rs \<in> set rs"
  by (simp add: choose_ready_def)

lemma exec_steps_invariant:
  assumes "exec_steps pick g k completed = Inr final"
    and "distinct completed" "set completed \<subseteq> {0..<num_nodes g}" "preds_first g completed"
  shows "distinct final \<and> set final \<subseteq> {0..<num_nodes g} \<and> preds_first g final \<and>
         length final = length completed + k"
  using assms
proof (induction k arbitrary: completed)
  case 0
  then show ?case by simp
next
  case (Suc k)
  let ?rs = "filter (ready g completed) [0..<num_nodes g]"
  from Suc.prems(1) obtain r rs where rs: "?rs = r # rs"
    by (cases ?rs) simp_all
  let ?c = "choose_ready pick (r # rs)"
  have cin: "?c \<in> set ?rs" using choose_ready_in[of "r # rs" pick] rs by simp
  then have c: "ready g completed ?c" "?c < num_nodes g" by simp_all
  have run: "exec_steps pick g k (completed @ [?c]) = Inr final"
    using Suc.prems(1) rs by simp
  have d: "distinct (completed @ [?c])"
    using Suc.prems(2) c(1) by (simp add: ready_def)
  have s: "set (completed @ [?c]) \<subseteq> {0..<num_nodes g}"
    using Suc.prems(3) c(2) by simp
  have p: "preds_first g (completed @ [?c])"
    using preds_first_snoc[OF Suc.prems(4) c(1)] .
  from Suc.IH[OF run d s p] show ?case by simp
qed

lemma exec_all_nodes:
  assumes "exec pick g = Inr final"
  shows "distinct final \<and> set final = {0..<num_nodes g} \<and> preds_first g final"
proof -
  have inv: "distinct final \<and> set final \<subseteq> {0..<num_nodes g} \<and> preds_first g final \<and>
         length final = num_nodes g"
    using exec_steps_invariant[of pick g "num_nodes g" "[]" final] assms
    by (simp add: exec_def preds_first_Nil)
  then have "card (set final) = num_nodes g" by (simp add: distinct_card)
  then have "set final = {0..<num_nodes g}"
    using inv by (intro card_subset_eq) simp_all
  then show ?thesis using inv by simp
qed

lemma fold_node_callable_fst:
  "fst (fold node_callable vs s) = fst s + int (length vs)"
  by (induction vs arbitrary: s) (simp_all add: node_callable_def)

lemma fold_node_callable_notin:
  "v \<notin> set vs \<Longrightarrow> snd (fold node_callable vs s) v = snd s v"
  by (induction vs arbitrary: s) (simp_all add: node_callable_def)

lemma fold_node_callable_order:
  assumes "distinct (xs @ v # ys)"
  shows "snd (fold node_callable (xs @ v # ys) s) v = fst s + int (length xs)"
proof -
  have "v \<notin> set ys" using assms by simp
  then show ?thesis
    by (simp add: fold_node_callable_notin node_callable_def fold_node_callable_fst)
qed

lemma order_before:
  assumes "distinct (xs @ v # ys)" "u \<in> set xs"
  shows "0 \<le> snd (run_callables (xs @ v # ys)) u \<and>
         snd (run_callables (xs @ v # ys)) u < snd (run_callables (xs @ v # ys)) v"
proof -
  from assms(2) obtain as bs where xs: "xs = as @ u # bs"
    by (auto simp: in_set_conv_decomp)
  have "distinct (as @ u # (bs @ v # ys))" using assms(1) xs by simp
  then have u: "snd (run_callables (as @ u # (bs @ v # ys))) u = int (length as)"
    unfolding run_callables_def by (subst fold_node_callable_order) simp_all
  have v: "snd (run_callables (xs @ v # ys)) v = int (length xs)"
    unfolding run_callables_def using assms(1) by (subst fold_node_callable_order) simp_all
  show ?thesis using u v xs by simp
qed

lemma exec_respects_edges:
  assumes "exec pick g = Inr final" "(u, v) \<in> set (edges g)" "v < num_nodes g"
  shows "0 \<le> snd (run_callables final) u \<and>
         snd (run_callables final) u < snd (run_callables final) v"
proof -
  have inv: "distinct final" "set final = {0..<num_nodes g}" "preds_first g final"
    using exec_all_nodes[OF assms(1)] by simp_all
  then have "v \<in> set final" using assms(3) by simp
  then obtain xs ys where f: "final = xs @ v # ys" by (auto simp: in_set_conv_decomp)
  then have "u \<in> set xs" using inv(3) assms(2) unfolding preds_first_def by blast
  then show ?thesis using order_before[of xs v ys u] inv(1) f by simp
qed

text \<open>On a graph with forward edges the least node that has not run is eligible.\<close>

lemma forward_ready_exists:
  assumes "forward_edges g" "distinct completed" "set completed \<subseteq> {0..<num_nodes g}"
    and "length completed < num_nodes g"
  shows "filter (ready g completed) [0..<num_nodes g] \<noteq> []"
proof -
  have less: "card (set completed) < card {0..<num_nodes g}"
    using assms(2,4) by (simp add: distinct_card)
  have "\<exists>v. v < num_nodes g \<and> v \<notin> set completed"
  proof (rule ccontr)
    assume "\<not> (\<exists>v. v < num_nodes g \<and> v \<notin> set completed)"
    then have "{0..<num_nodes g} \<subseteq> set completed" by auto
    then have "card {0..<num_nodes g} \<le> card (set completed)"
      by (intro card_mono) simp_all
    with less show False by simp
  qed
  then obtain v where v: "v < num_nodes g \<and> v \<notin> set completed" by blast
  define m where "m = (LEAST v. v < num_nodes g \<and> v \<notin> set completed)"
  have m: "m < num_nodes g \<and> m \<notin> set completed"
    unfolding m_def using v by (rule LeastI)
  have least: "\<And>u. u < m \<Longrightarrow> u \<in> set completed"
  proof (rule ccontr)
    fix u assume "u < m" "u \<notin> set completed"
    moreover from this m have "u < num_nodes g \<and> u \<notin> set completed" by simp
    then have "m \<le> u" unfolding m_def by (rule Least_le)
    ultimately show False by simp
  qed
  have "ready g completed m"
    using m least assms(1) by (auto simp: ready_def forward_edges_def list_all_iff)
  then have "m \<in> set (filter (ready g completed) [0..<num_nodes g])" using m by simp
  then show ?thesis by (metis empty_iff empty_set)
qed

lemma forward_exec_steps_returns:
  assumes "forward_edges g" "distinct completed" "set completed \<subseteq> {0..<num_nodes g}"
    and "length completed + k = num_nodes g"
  shows "\<exists>final. exec_steps pick g k completed = Inr final"
  using assms
proof (induction k arbitrary: completed)
  case 0
  then show ?case by simp
next
  case (Suc k)
  let ?rs = "filter (ready g completed) [0..<num_nodes g]"
  have "?rs \<noteq> []"
    using forward_ready_exists[OF Suc.prems(1,2,3)] Suc.prems(4) by simp
  then obtain r rs where rs: "?rs = r # rs" by (cases ?rs) simp_all
  let ?c = "choose_ready pick (r # rs)"
  have cin: "?c \<in> set ?rs" using choose_ready_in[of "r # rs" pick] rs by simp
  then have c: "ready g completed ?c" "?c < num_nodes g" by simp_all
  have d: "distinct (completed @ [?c])"
    using Suc.prems(2) c(1) by (simp add: ready_def)
  have s: "set (completed @ [?c]) \<subseteq> {0..<num_nodes g}"
    using Suc.prems(3) c(2) by simp
  have l: "length (completed @ [?c]) + k = num_nodes g" using Suc.prems(4) by simp
  from Suc.IH[OF Suc.prems(1) d s l] show ?case using rs by simp
qed

lemma forward_exec_returns:
  "forward_edges g \<Longrightarrow> \<exists>final. exec pick g = Inr final"
  unfolding exec_def by (rule forward_exec_steps_returns) simp_all

text \<open>
  Claim C6. On a graph whose edges go from lower to higher handles, as the tests build
  them, \<open>exec\<close> returns for every way of picking among the eligible nodes. Whenever
  \<open>exec\<close> returns, on any graph with its edges between its own nodes, every node has
  run exactly once, the counter ends at the number of nodes, and for every edge
  \<open>(u, v)\<close> the order recorded for \<open>u\<close> is below the one recorded for \<open>v\<close>: \<open>u\<close>'s
  callable, which runs to completion before the next node starts, has completed before
  \<open>v\<close>'s starts. Nothing else constrains the order.
\<close>

theorem exec_topological_order:
  "(forward_edges g \<longrightarrow> (\<exists>final. exec pick g = Inr final)) \<and>
   (edges_in_range g \<and> exec pick g = Inr final \<longrightarrow>
      distinct final \<and> set final = {0..<num_nodes g} \<and>
      fst (run_callables final) = int (num_nodes g) \<and>
      (\<forall>(u, v) \<in> set (edges g).
         0 \<le> snd (run_callables final) u \<and>
         snd (run_callables final) u < snd (run_callables final) v))"
proof (intro conjI impI)
  assume "forward_edges g"
  then show "\<exists>final. exec pick g = Inr final" by (rule forward_exec_returns)
next
  assume a: "edges_in_range g \<and> exec pick g = Inr final"
  then have inv: "distinct final" "set final = {0..<num_nodes g}"
    using exec_all_nodes[of pick g final] by simp_all
  show "distinct final" by (rule inv(1))
  show "set final = {0..<num_nodes g}" by (rule inv(2))
  have "length final = card (set final)" using inv(1) by (simp add: distinct_card)
  then show "fst (run_callables final) = int (num_nodes g)"
    using inv(2) by (simp add: run_callables_def fold_node_callable_fst)
  show "\<forall>(u, v) \<in> set (edges g).
         0 \<le> snd (run_callables final) u \<and>
         snd (run_callables final) u < snd (run_callables final) v"
  proof (clarify)
    fix u v assume e: "(u, v) \<in> set (edges g)"
    then have "v < num_nodes g" using a by (auto simp: edges_in_range_def list_all_iff)
    then show "0 \<le> snd (run_callables final) u \<and>
         snd (run_callables final) u < snd (run_callables final) v"
      using exec_respects_edges[of pick g final u v] a e by simp
  qed
qed

text \<open>
  The theorem on the four-node diamond of the unit test (0 before 1 and 2, both before
  3), once running the first and once the last eligible node: both runs complete, the
  one in the order 0, 1, 2, 3 and the other in the order 0, 2, 1, 3.
\<close>

theorem exec_topological_order_witness:
  "forward_edges \<lparr>num_nodes = 4, edges = [(0, 1), (0, 2), (1, 3), (2, 3)]\<rparr> \<and>
   edges_in_range \<lparr>num_nodes = 4, edges = [(0, 1), (0, 2), (1, 3), (2, 3)]\<rparr> \<and>
   exec hd \<lparr>num_nodes = 4, edges = [(0, 1), (0, 2), (1, 3), (2, 3)]\<rparr> = Inr [0, 1, 2, 3] \<and>
   exec last \<lparr>num_nodes = 4, edges = [(0, 1), (0, 2), (1, 3), (2, 3)]\<rparr> = Inr [0, 2, 1, 3] \<and>
   fst (run_callables [0, 2, 1, 3]) = 4 \<and>
   snd (run_callables [0, 2, 1, 3]) 0 = 0 \<and>
   snd (run_callables [0, 2, 1, 3]) 2 = 1 \<and>
   snd (run_callables [0, 2, 1, 3]) 1 = 2 \<and>
   snd (run_callables [0, 2, 1, 3]) 3 = 3 \<and>
   snd (run_callables [0, 1, 2, 3]) 1 = 1 \<and>
   snd (run_callables [0, 1, 2, 3]) 2 = 2"
proof -
  let ?g = "\<lparr>num_nodes = 4, edges = [(0, 1), (0, 2), (1, 3), (2, 3)]\<rparr>"
  have f: "forward_edges ?g" by (simp add: forward_edges_def)
  have r: "edges_in_range ?g" by (simp add: edges_in_range_def)
  have e1: "exec hd ?g = Inr [0, 1, 2, 3]" by code_simp
  have e2: "exec last ?g = Inr [0, 2, 1, 3]" by code_simp
  show ?thesis
    using f r e1 e2 exec_topological_order [of ?g hd "[0, 1, 2, 3]"]
      exec_topological_order [of ?g last "[0, 2, 1, 3]"]
    by (simp add: run_callables_def node_callable_def)
qed

section \<open>The work-group pipeline\<close>










section \<open>Index coverage\<close>




















end
